theory Spec2Isabelle
  imports Main "HOL-Library.Word"
begin

unbundle bit_operations_syntax

section \<open>Data model of \<^verbatim>\<open>IPAddr.h\<close>\<close>

type_synonym uint8_t = "8 word"
type_synonym uint32_t = "32 word"

text \<open>\<^verbatim>\<open>enum Family { IPv4, IPv6 }\<close> and \<^verbatim>\<open>enum ByteOrder { Host, Network }\<close>.\<close>

datatype Family = IPv4 | IPv6

datatype ByteOrder = Host | Network

text \<open>
  Class \<^verbatim>\<open>IPAddr\<close> has the single data member \<^verbatim>\<open>in6_addr in6\<close>; the field below is its
  byte array \<^verbatim>\<open>in6.s6_addr\<close>, in memory order. The C type fixes the array at 16 bytes,
  which the model records as the predicate \<open>wf_IPAddr\<close>.
\<close>

record IPAddr =
  in6 :: "uint8_t list"

definition wf_IPAddr :: "IPAddr \<Rightarrow> bool" where
  "wf_IPAddr a \<longleftrightarrow> length (in6 a) = 16"

text \<open>
  Modelled from the spec: the constant \<^verbatim>\<open>IPAddr::v4_mapped_prefix\<close> is declared in the
  header and defined in a file outside the sources at hand. The spec gives it as the 96-bit
  prefix \<^verbatim>\<open>0:0:0:0:0:ffff\<close>.
\<close>

definition v4_mapped_prefix :: "uint8_t list" where
  "v4_mapped_prefix = [0, 0, 0, 0, 0, 0, 0, 0, 0, 0, 0xff, 0xff]"

text \<open>
  The C library's \<^verbatim>\<open>memcmp(s1, s2, n)\<close>: the first \<open>n\<close> bytes are compared as unsigned
  values (the order of \<open>8 word\<close>), and the sign of the result is that of the comparison of
  the first pair that differs. C fixes only the sign, and the callers only test it, so the
  model returns \<open>-1\<close>, \<open>0\<close> or \<open>1\<close>. Every call in the header compares arrays at least
  \<open>n\<close> bytes long; the last equation only makes the function total.
\<close>

fun memcmp :: "uint8_t list \<Rightarrow> uint8_t list \<Rightarrow> nat \<Rightarrow> int" where
  "memcmp s1 s2 0 = 0"
| "memcmp (x # s1) (y # s2) (Suc n) =
     (if x = y then memcmp s1 s2 n else if x < y then - 1 else 1)"
| "memcmp s1 s2 (Suc n) = 0"

section \<open>Queries of \<^verbatim>\<open>IPAddr\<close>\<close>

definition family :: "IPAddr \<Rightarrow> Family" where
  "family a = (if memcmp (in6 a) v4_mapped_prefix 12 = 0 then IPv4 else IPv6)"

definition IsLoopback :: "IPAddr \<Rightarrow> bool" where
  "IsLoopback a =
     (if family a = IPv4 then in6 a ! 12 = 127
      else (in6 a ! 0 = 0 \<and> in6 a ! 1 = 0
        \<and> in6 a ! 2 = 0 \<and> in6 a ! 3 = 0
        \<and> in6 a ! 4 = 0 \<and> in6 a ! 5 = 0
        \<and> in6 a ! 6 = 0 \<and> in6 a ! 7 = 0
        \<and> in6 a ! 8 = 0 \<and> in6 a ! 9 = 0
        \<and> in6 a ! 10 = 0 \<and> in6 a ! 11 = 0
        \<and> in6 a ! 12 = 0 \<and> in6 a ! 13 = 0
        \<and> in6 a ! 14 = 0 \<and> in6 a ! 15 = 1))"

definition IsMulticast :: "IPAddr \<Rightarrow> bool" where
  "IsMulticast a =
     (if family a = IPv4 then in6 a ! 12 = 224 else in6 a ! 0 = 0xff)"

definition IsBroadcast :: "IPAddr \<Rightarrow> bool" where
  "IsBroadcast a =
     (if family a = IPv4
      then (in6 a ! 12 = 0xff \<and> in6 a ! 13 = 0xff
        \<and> in6 a ! 14 = 0xff \<and> in6 a ! 15 = 0xff)
      else False)"

text \<open>\<^verbatim>\<open>operator==\<close>, \<^verbatim>\<open>operator!=\<close> and \<^verbatim>\<open>operator<\<close> on addresses.\<close>

definition IPAddr_eq :: "IPAddr \<Rightarrow> IPAddr \<Rightarrow> bool" where
  "IPAddr_eq addr1 addr2 \<longleftrightarrow> memcmp (in6 addr1) (in6 addr2) 16 = 0"

definition IPAddr_neq :: "IPAddr \<Rightarrow> IPAddr \<Rightarrow> bool" where
  "IPAddr_neq addr1 addr2 \<longleftrightarrow> \<not> IPAddr_eq addr1 addr2"

definition IPAddr_less :: "IPAddr \<Rightarrow> IPAddr \<Rightarrow> bool" where
  "IPAddr_less addr1 addr2 \<longleftrightarrow> memcmp (in6 addr1) (in6 addr2) 16 < 0"

definition IPAddr_assign :: "IPAddr \<Rightarrow> IPAddr \<Rightarrow> IPAddr" where
  "IPAddr_assign this other = this\<lparr>in6 := in6 other\<rparr>"

section \<open>The raw-byte constructor\<close>

text \<open>
  \<^verbatim>\<open>IPAddr(Family family, const uint32_t* bytes, ByteOrder order)\<close> copies memory with
  \<^verbatim>\<open>memcpy\<close> and then, for \<^verbatim>\<open>Host\<close>, rewrites each 32-bit word in place by
  \<^verbatim>\<open>*p = htonl(*p)\<close>. The buffer is modelled as the bytes in memory. Reading and writing
  a \<^verbatim>\<open>uint32_t\<close> through \<^verbatim>\<open>p\<close>, and \<^verbatim>\<open>htonl\<close> itself, depend on the byte order of the
  machine the code runs on, which is a parameter of the model.
\<close>

datatype Endian = LittleEndian | BigEndian

fun load32 :: "Endian \<Rightarrow> uint8_t list \<Rightarrow> uint32_t" where
  "load32 LittleEndian [b0, b1, b2, b3] =
     ucast b0 OR push_bit 8 (ucast b1) OR push_bit 16 (ucast b2) OR push_bit 24 (ucast b3)"
| "load32 BigEndian [b0, b1, b2, b3] =
     ucast b3 OR push_bit 8 (ucast b2) OR push_bit 16 (ucast b1) OR push_bit 24 (ucast b0)"
| "load32 e bs = 0"

fun store32 :: "Endian \<Rightarrow> uint32_t \<Rightarrow> uint8_t list" where
  "store32 LittleEndian w =
     [ucast w, ucast (drop_bit 8 w), ucast (drop_bit 16 w), ucast (drop_bit 24 w)]"
| "store32 BigEndian w =
     [ucast (drop_bit 24 w), ucast (drop_bit 16 w), ucast (drop_bit 8 w), ucast w]"

text \<open>
  \<^verbatim>\<open>htonl\<close> of the C library: the value whose representation in the machine's memory is
  the big-endian representation of the argument. On a little-endian machine it reverses
  the four bytes; on a big-endian machine it returns its argument.
\<close>

definition bswap32 :: "uint32_t \<Rightarrow> uint32_t" where
  "bswap32 w = push_bit 24 (w AND 0xff) OR push_bit 8 (w AND 0xff00)
     OR drop_bit 8 (w AND 0xff0000) OR drop_bit 24 w"

fun htonl :: "Endian \<Rightarrow> uint32_t \<Rightarrow> uint32_t" where
  "htonl LittleEndian w = bswap32 w"
| "htonl BigEndian w = w"

text \<open>\<^verbatim>\<open>uint32_t* p = (uint32_t*) &in6.s6_addr[off]; *p = htonl(*p);\<close>\<close>

definition htonl_at :: "Endian \<Rightarrow> nat \<Rightarrow> uint8_t list \<Rightarrow> uint8_t list" where
  "htonl_at e off s =
     take off s @ store32 e (htonl e (load32 e (take 4 (drop off s)))) @ drop (off + 4) s"

definition IPAddr_raw :: "Endian \<Rightarrow> Family \<Rightarrow> uint8_t list \<Rightarrow> ByteOrder \<Rightarrow> IPAddr" where
  "IPAddr_raw e fam bytes order =
     (if fam = IPv4 then
        (let s = v4_mapped_prefix @ take 4 bytes
         in \<lparr>in6 = (if order = Host then htonl_at e 12 s else s)\<rparr>)
      else
        (let s = take 16 bytes
         in \<lparr>in6 = (if order = Host then fold (\<lambda>i. htonl_at e (i * 4)) [0..<4] s else s)\<rparr>))"

section \<open>Class \<^verbatim>\<open>IPPrefix\<close>\<close>

text \<open>
  The data members are \<^verbatim>\<open>IPAddr prefix\<close> and \<^verbatim>\<open>uint8_t length\<close>; the second is named
  \<open>length'\<close> here because \<open>length\<close> is the length of a list.
\<close>

record IPPrefix =
  prefix :: IPAddr
  length' :: uint8_t

definition IPPrefix_copy :: "IPPrefix \<Rightarrow> IPPrefix" where
  "IPPrefix_copy other = \<lparr>prefix = prefix other, length' = length' other\<rparr>"

definition Prefix :: "IPPrefix \<Rightarrow> IPAddr" where
  "Prefix p = prefix p"

text \<open>
  \<^verbatim>\<open>Length()\<close> returns \<^verbatim>\<open>uint8_t\<close>: the difference, computed in \<^verbatim>\<open>int\<close>, is reduced
  modulo 256 on return, which is the subtraction of \<open>8 word\<close>.
\<close>

definition Length :: "IPPrefix \<Rightarrow> uint8_t" where
  "Length p = (if family (prefix p) = IPv4 then length' p - 96 else length' p)"

definition LengthIPv6 :: "IPPrefix \<Rightarrow> uint8_t" where
  "LengthIPv6 p = length' p"

text \<open>
  \<^verbatim>\<open>operator=\<close>: \<^verbatim>\<open>prefix = other.Prefix(); length = other.Length(); return *this;\<close>
\<close>

definition IPPrefix_assign :: "IPPrefix \<Rightarrow> IPPrefix \<Rightarrow> IPPrefix" where
  "IPPrefix_assign this other =
     (let this1 = this\<lparr>prefix := IPAddr_assign (prefix this) (Prefix other)\<rparr>
      in this1\<lparr>length' := Length other\<rparr>)"

definition IPPrefix_eq :: "IPPrefix \<Rightarrow> IPPrefix \<Rightarrow> bool" where
  "IPPrefix_eq net1 net2 \<longleftrightarrow>
     IPAddr_eq (Prefix net1) (Prefix net2) \<and> Length net1 = Length net2"

definition IPPrefix_less :: "IPPrefix \<Rightarrow> IPPrefix \<Rightarrow> bool" where
  "IPPrefix_less net1 net2 =
     (if IPAddr_less (Prefix net1) (Prefix net2) then True
      else if IPAddr_eq (Prefix net1) (Prefix net2) then Length net1 < Length net2
      else False)"

section \<open>Masking and prefix construction\<close>

datatype ParseErrorKind = SyntaxError | RangeError

datatype error = ContractViolation | ParseError string ParseErrorKind

text \<open>
  Modelled from the spec: \<^verbatim>\<open>IPAddr::Mask\<close> is declared in the header and defined in a file
  outside the sources at hand. The spec: zero all bits after the first \<open>topBitsToKeep\<close>
  bits of the full 128-bit representation, counting from the most significant bit,
  whatever the family; bytes wholly beyond the boundary are zeroed outright, and the byte
  straddling the boundary is masked with a bit mask covering the bits past the cut; a bit
  count outside 0..128 is a contract violation that fails fast.
\<close>

fun mask_bytes :: "uint8_t list \<Rightarrow> nat \<Rightarrow> uint8_t list" where
  "mask_bytes [] n = []"
| "mask_bytes (b # bs) n =
     (if 8 \<le> n then b # mask_bytes bs (n - 8)
      else if n = 0 then 0 # mask_bytes bs 0
      else (b AND NOT (mask (8 - n))) # mask_bytes bs 0)"

definition Mask :: "IPAddr \<Rightarrow> int \<Rightarrow> error + IPAddr" where
  "Mask a top_bits_to_keep =
     (if top_bits_to_keep < 0 \<or> 128 < top_bits_to_keep then Inl ContractViolation
      else Inr (a\<lparr>in6 := mask_bytes (in6 a) (nat top_bits_to_keep)\<rparr>))"

text \<open>
  Modelled from the spec: the constructor \<^verbatim>\<open>IPPrefix(const IPAddr& addr, uint8_t length)\<close>
  is declared in the header and defined outside the sources at hand. The spec: convert
  the family-relative length to the 128-bit scale (add 96 if the address is IPv4), then
  apply \<open>Mask\<close> to the stored address with that length.
\<close>

definition IPPrefix_ctor :: "IPAddr \<Rightarrow> uint8_t \<Rightarrow> error + IPPrefix" where
  "IPPrefix_ctor addr len =
     (let len128 = (if family addr = IPv4 then int (unat len) + 96 else int (unat len))
      in case Mask addr len128 of
           Inl e \<Rightarrow> Inl e
         | Inr m \<Rightarrow> Inr \<lparr>prefix = m, length' = word_of_int len128\<rparr>)"

text \<open>
  Bit \<open>i\<close> of a byte array, counted from the most significant bit of the first byte: the
  numbering in which prefix lengths count.
\<close>

definition bit_at :: "uint8_t list \<Rightarrow> nat \<Rightarrow> bool" where
  "bit_at bs i = bit (bs ! (i div 8)) (7 - i mod 8)"

definition same_top_bits :: "IPAddr \<Rightarrow> IPAddr \<Rightarrow> nat \<Rightarrow> bool" where
  "same_top_bits a b n \<longleftrightarrow> (\<forall>i \<in> {0..<n}. bit_at (in6 a) i = bit_at (in6 b) i)"

section \<open>Text conversion\<close>

text \<open>
  Modelled from the spec: \<^verbatim>\<open>IPAddr::AsString\<close> and \<^verbatim>\<open>IPAddr::Init\<close> are declared in the
  header and defined in a file outside the sources at hand. The definitions of this
  section follow the spec's description of the formatter and of the parser.
\<close>

text \<open>Digits: lower case on output; the parser reads hexadecimal digits of either case.\<close>

definition hex_digits :: string where
  "hex_digits = ''0123456789abcdef''"

definition digit_char :: "nat \<Rightarrow> char" where
  "digit_char d = hex_digits ! d"

fun index_of :: "char \<Rightarrow> string \<Rightarrow> nat option" where
  "index_of c [] = None"
| "index_of c (x # xs) = (if c = x then Some 0 else map_option Suc (index_of c xs))"

definition digit_val :: "char \<Rightarrow> nat option" where
  "digit_val c =
     (case index_of c hex_digits of
        Some d \<Rightarrow> Some d
      | None \<Rightarrow> map_option (\<lambda>i. i + 10) (index_of c ''ABCDEF''))"

text \<open>A number in decimal and in lower-case hexadecimal, without leading zeros.\<close>

fun dec_string :: "nat \<Rightarrow> string" where
  "dec_string n =
     (if n < 10 then [digit_char n] else dec_string (n div 10) @ [digit_char (n mod 10)])"

fun hex_string :: "nat \<Rightarrow> string" where
  "hex_string n =
     (if n < 16 then [digit_char n] else hex_string (n div 16) @ [digit_char (n mod 16)])"

declare dec_string.simps [simp del] hex_string.simps [simp del]

fun join :: "string \<Rightarrow> string list \<Rightarrow> string" where
  "join sep [] = []"
| "join sep [t] = t"
| "join sep (t # u # ts) = t @ sep @ join sep (u # ts)"

text \<open>The eight 16-bit groups of the 16 bytes, most significant byte first, and back.\<close>

fun groups_of :: "uint8_t list \<Rightarrow> nat list" where
  "groups_of (hi # lo # bs) = (256 * unat hi + unat lo) # groups_of bs"
| "groups_of bs = []"

definition bytes_of_groups :: "nat list \<Rightarrow> uint8_t list" where
  "bytes_of_groups gs = concat (map (\<lambda>g. [of_nat (g div 256), of_nat (g mod 256)]) gs)"

text \<open>
  The run of zero groups to compress: for each position the number of consecutive zero
  groups starting there; the longest wins, and among runs of the same length the leftmost.
  The result is the start and the length of the run.
\<close>

definition zero_run :: "nat list \<Rightarrow> nat" where
  "zero_run gs = length (takeWhile (\<lambda>g. g = 0) gs)"

fun best_zero_run :: "nat list \<Rightarrow> nat \<times> nat" where
  "best_zero_run [] = (0, 0)"
| "best_zero_run (g # gs) =
     (let r = zero_run (g # gs); (i, n) = best_zero_run gs
      in if n \<le> r then (0, r) else (Suc i, n))"

text \<open>
  Modelled from the spec: eight colon-separated lower-case hexadecimal groups, where the
  longest run of two or more zero groups is replaced by \<^verbatim>\<open>::\<close>, at most once.
\<close>

definition format_groups :: "nat list \<Rightarrow> string" where
  "format_groups gs =
     (let (i, n) = best_zero_run gs
      in if 2 \<le> n
         then join '':'' (map hex_string (take i gs)) @ ''::''
              @ join '':'' (map hex_string (drop (i + n) gs))
         else join '':'' (map hex_string gs))"

text \<open>
  Modelled from the spec: an IPv4 address is formatted as its four decimal octets separated
  by dots, an IPv6 address as its groups in compressed form.
\<close>

definition AsString :: "IPAddr \<Rightarrow> string" where
  "AsString a =
     (if family a = IPv4 then join ''.'' (map (dec_string \<circ> unat) (drop 12 (in6 a)))
      else format_groups (groups_of (in6 a)))"

text \<open>
  Modelled from the spec: the parser accepts dotted-decimal IPv4 text and colon-hex IPv6
  text with the \<^verbatim>\<open>::\<close> compression and an optional trailing dotted quad. It rejects a
  wrong number of fields, an empty field or a character that is not a digit (syntax), a
  value out of range (range), and a second \<^verbatim>\<open>::\<close>. The error names the input and the
  kind of failure.
\<close>

fun parse_num :: "nat \<Rightarrow> nat \<Rightarrow> string \<Rightarrow> nat option" where
  "parse_num b acc [] = Some acc"
| "parse_num b acc (c # cs) =
     (case digit_val c of
        None \<Rightarrow> None
      | Some d \<Rightarrow> if d < b then parse_num b (acc * b + d) cs else None)"

definition parse_field :: "nat \<Rightarrow> nat \<Rightarrow> string \<Rightarrow> ParseErrorKind + nat" where
  "parse_field b limit t =
     (if t = [] then Inl SyntaxError
      else case parse_num b 0 t of
             None \<Rightarrow> Inl SyntaxError
           | Some v \<Rightarrow> if limit < v then Inl RangeError else Inr v)"

definition parse_octet :: "string \<Rightarrow> ParseErrorKind + nat" where
  "parse_octet = parse_field 10 255"

definition parse_group :: "string \<Rightarrow> ParseErrorKind + nat" where
  "parse_group = parse_field 16 65535"

fun split :: "char \<Rightarrow> string \<Rightarrow> string list" where
  "split sep [] = [[]]"
| "split sep (c # cs) =
     (if c = sep then [] # split sep cs
      else case split sep cs of
             [] \<Rightarrow> [[c]]
           | t # ts \<Rightarrow> (c # t) # ts)"

fun traverse :: "('a \<Rightarrow> 'e + 'b) \<Rightarrow> 'a list \<Rightarrow> 'e + 'b list" where
  "traverse f [] = Inr []"
| "traverse f (x # xs) =
     (case f x of
        Inl e \<Rightarrow> Inl e
      | Inr y \<Rightarrow> (case traverse f xs of Inl e \<Rightarrow> Inl e | Inr ys \<Rightarrow> Inr (y # ys)))"

definition parse_v4 :: "string \<Rightarrow> ParseErrorKind + nat list" where
  "parse_v4 s =
     (let ts = split CHR ''.'' s
      in if length ts \<noteq> 4 then Inl SyntaxError else traverse parse_octet ts)"

fun parse_groups :: "string list \<Rightarrow> ParseErrorKind + nat list" where
  "parse_groups [] = Inr []"
| "parse_groups [t] =
     (if CHR ''.'' \<in> set t
      then (case parse_v4 t of
              Inl e \<Rightarrow> Inl e
            | Inr os \<Rightarrow> Inr (groups_of (map of_nat os)))
      else (case parse_group t of Inl e \<Rightarrow> Inl e | Inr g \<Rightarrow> Inr [g]))"
| "parse_groups (t # ts) =
     (case parse_group t of
        Inl e \<Rightarrow> Inl e
      | Inr g \<Rightarrow> (case parse_groups ts of Inl e \<Rightarrow> Inl e | Inr gs \<Rightarrow> Inr (g # gs)))"

text \<open>The text before and after the first \<^verbatim>\<open>::\<close>, if there is one.\<close>

fun split_dcolon :: "string \<Rightarrow> (string \<times> string) option" where
  "split_dcolon (c # d # cs) =
     (if c = CHR '':'' \<and> d = CHR '':'' then Some ([], cs)
      else map_option (\<lambda>(l, r). (c # l, r)) (split_dcolon (d # cs)))"
| "split_dcolon cs = None"

definition parse_v6 :: "string \<Rightarrow> ParseErrorKind + nat list" where
  "parse_v6 s =
     (case split_dcolon s of
        None \<Rightarrow>
          (case parse_groups (split CHR '':'' s) of
             Inl e \<Rightarrow> Inl e
           | Inr gs \<Rightarrow> if length gs = 8 then Inr gs else Inl SyntaxError)
      | Some (l, r) \<Rightarrow>
          if split_dcolon r \<noteq> None then Inl SyntaxError
          else
            (case (if l = [] then Inr [] else traverse parse_group (split CHR '':'' l)) of
               Inl e \<Rightarrow> Inl e
             | Inr gl \<Rightarrow>
                 (case (if r = [] then Inr [] else parse_groups (split CHR '':'' r)) of
                    Inl e \<Rightarrow> Inl e
                  | Inr gr \<Rightarrow>
                      if length gl + length gr \<le> 7
                      then Inr (gl @ replicate (8 - (length gl + length gr)) 0 @ gr)
                      else Inl SyntaxError)))"

text \<open>
  Text with a colon is read as colon-hex text, any other text as dotted decimal; an IPv4
  address is stored in mapped form.
\<close>

definition parse :: "string \<Rightarrow> error + IPAddr" where
  "parse s =
     (if CHR '':'' \<in> set s
      then (case parse_v6 s of
              Inl k \<Rightarrow> Inl (ParseError s k)
            | Inr gs \<Rightarrow> Inr \<lparr>in6 = bytes_of_groups gs\<rparr>)
      else (case parse_v4 s of
              Inl k \<Rightarrow> Inl (ParseError s k)
            | Inr os \<Rightarrow> Inr \<lparr>in6 = v4_mapped_prefix @ map of_nat os\<rparr>))"

text \<open>Tokens that are not empty and hold no colon.\<close>

definition tokens_ok :: "string list \<Rightarrow> bool" where
  "tokens_ok ts \<longleftrightarrow> (\<forall>t \<in> set ts. t \<noteq> [] \<and> CHR '':'' \<notin> set t)"

section \<open>Example values\<close>

definition addr_192_168_1_2 :: IPAddr where
  "addr_192_168_1_2 = \<lparr>in6 = [0, 0, 0, 0, 0, 0, 0, 0, 0, 0, 0xff, 0xff, 192, 168, 1, 2]\<rparr>"

definition addr_10_0_0_0 :: IPAddr where
  "addr_10_0_0_0 = \<lparr>in6 = [0, 0, 0, 0, 0, 0, 0, 0, 0, 0, 0xff, 0xff, 10, 0, 0, 0]\<rparr>"

definition addr_10_255_255_255 :: IPAddr where
  "addr_10_255_255_255 =
     \<lparr>in6 = [0, 0, 0, 0, 0, 0, 0, 0, 0, 0, 0xff, 0xff, 10, 0xff, 0xff, 0xff]\<rparr>"

definition addr_loopback6 :: IPAddr where
  "addr_loopback6 = \<lparr>in6 = [0, 0, 0, 0, 0, 0, 0, 0, 0, 0, 0, 0, 0, 0, 0, 1]\<rparr>"

definition addr_unspecified :: IPAddr where
  "addr_unspecified = \<lparr>in6 = [0, 0, 0, 0, 0, 0, 0, 0, 0, 0, 0, 0, 0, 0, 0, 0]\<rparr>"

definition addr_239_1_1_1 :: IPAddr where
  "addr_239_1_1_1 = \<lparr>in6 = [0, 0, 0, 0, 0, 0, 0, 0, 0, 0, 0xff, 0xff, 239, 1, 1, 1]\<rparr>"

definition addr_224_0_0_1 :: IPAddr where
  "addr_224_0_0_1 = \<lparr>in6 = [0, 0, 0, 0, 0, 0, 0, 0, 0, 0, 0xff, 0xff, 224, 0, 0, 1]\<rparr>"

definition addr_ff02_1 :: IPAddr where
  "addr_ff02_1 = \<lparr>in6 = [0xff, 2, 0, 0, 0, 0, 0, 0, 0, 0, 0, 0, 0, 0, 0, 1]\<rparr>"

definition addr_255_255_255_255 :: IPAddr where
  "addr_255_255_255_255 =
     \<lparr>in6 = [0, 0, 0, 0, 0, 0, 0, 0, 0, 0, 0xff, 0xff, 0xff, 0xff, 0xff, 0xff]\<rparr>"

definition addr_all_ones :: IPAddr where
  "addr_all_ones =
     \<lparr>in6 = [0xff, 0xff, 0xff, 0xff, 0xff, 0xff, 0xff, 0xff,
             0xff, 0xff, 0xff, 0xff, 0xff, 0xff, 0xff, 0xff]\<rparr>"

definition addr_192_168_0_0 :: IPAddr where
  "addr_192_168_0_0 = \<lparr>in6 = [0, 0, 0, 0, 0, 0, 0, 0, 0, 0, 0xff, 0xff, 192, 168, 0, 0]\<rparr>"

definition addr_192_168_128_0 :: IPAddr where
  "addr_192_168_128_0 = \<lparr>in6 = [0, 0, 0, 0, 0, 0, 0, 0, 0, 0, 0xff, 0xff, 192, 168, 128, 0]\<rparr>"

definition addr_192_168_255_7 :: IPAddr where
  "addr_192_168_255_7 = \<lparr>in6 = [0, 0, 0, 0, 0, 0, 0, 0, 0, 0, 0xff, 0xff, 192, 168, 255, 7]\<rparr>"

definition addr_2001_db8 :: IPAddr where
  "addr_2001_db8 = \<lparr>in6 = [0x20, 1, 0xd, 0xb8, 0, 0, 0, 0, 0, 1, 0, 0, 0, 0, 0, 1]\<rparr>"

text \<open>The prefix 10.0.0.0/8, as its fields are after construction.\<close>

definition prefix_10_8 :: IPPrefix where
  "prefix_10_8 = \<lparr>prefix = addr_10_0_0_0, length' = 104\<rparr>"

definition prefix_default :: IPPrefix where
  "prefix_default = \<lparr>prefix = addr_unspecified, length' = 0\<rparr>"

section \<open>Facts about \<open>memcmp\<close>\<close>

lemma memcmp_zero_iff:
  "n \<le> length s1 \<Longrightarrow> n \<le> length s2 \<Longrightarrow> memcmp s1 s2 n = 0 \<longleftrightarrow> take n s1 = take n s2"
proof (induction s1 s2 n rule: memcmp.induct)
  case (1 s1 s2)
  show ?case by simp
next
  case (2 x s1 y s2 n)
  then show ?case by simp
qed simp_all

lemma memcmp_full_zero_iff:
  "length s1 = n \<Longrightarrow> length s2 = n \<Longrightarrow> memcmp s1 s2 n = 0 \<longleftrightarrow> s1 = s2"
  by (simp add: memcmp_zero_iff)

lemma length_v4_mapped_prefix: "length v4_mapped_prefix = 12"
  by (simp add: v4_mapped_prefix_def)

lemma family_IPv4_iff:
  "wf_IPAddr a \<Longrightarrow> family a = IPv4 \<longleftrightarrow> take 12 (in6 a) = v4_mapped_prefix"
  by (simp add: family_def wf_IPAddr_def memcmp_zero_iff length_v4_mapped_prefix)

lemma family_IPv6_iff:
  "wf_IPAddr a \<Longrightarrow> family a = IPv6 \<longleftrightarrow> take 12 (in6 a) \<noteq> v4_mapped_prefix"
  using family_IPv4_iff [of a] by (cases "family a") simp_all

lemma IPAddr_eq_iff: "wf_IPAddr a \<Longrightarrow> wf_IPAddr b \<Longrightarrow> IPAddr_eq a b \<longleftrightarrow> a = b"
  by (cases a, cases b) (simp add: IPAddr_eq_def wf_IPAddr_def memcmp_full_zero_iff)

lemma memcmp_numeral [simp]:
  "memcmp (x # s1) (y # s2) (numeral k) =
     (if x = y then memcmp s1 s2 (pred_numeral k) else if x < y then - 1 else 1)"
  by (simp add: numeral_eq_Suc)

lemma list16_eq_iff:
  "length xs = 16 \<Longrightarrow>
   xs = [x0, x1, x2, x3, x4, x5, x6, x7, x8, x9, x10, x11, x12, x13, x14, x15] \<longleftrightarrow>
   (xs ! 0 = x0 \<and> xs ! 1 = x1 \<and> xs ! 2 = x2 \<and> xs ! 3 = x3 \<and> xs ! 4 = x4 \<and> xs ! 5 = x5
    \<and> xs ! 6 = x6 \<and> xs ! 7 = x7 \<and> xs ! 8 = x8 \<and> xs ! 9 = x9 \<and> xs ! 10 = x10
    \<and> xs ! 11 = x11 \<and> xs ! 12 = x12 \<and> xs ! 13 = x13 \<and> xs ! 14 = x14 \<and> xs ! 15 = x15)"
  by (simp add: list_eq_iff_nth_eq eval_nat_numeral All_less_Suc2)

lemma memcmp_sym: "memcmp s2 s1 n = - memcmp s1 s2 n"
  by (induction s1 s2 n rule: memcmp.induct) (auto elim: memcmp.elims)

lemma memcmp_less_iff:
  "n \<le> length s1 \<Longrightarrow> n \<le> length s2 \<Longrightarrow>
   memcmp s1 s2 n < 0 \<longleftrightarrow> (\<exists>i<n. take i s1 = take i s2 \<and> s1 ! i < s2 ! i)"
proof (induction s1 s2 n rule: memcmp.induct)
  case (2 x s1 y s2 n)
  show ?case
  proof (cases "x = y")
    case True
    with 2 show ?thesis
      by (auto simp: Ex_less_Suc2)
  next
    case False
    then show ?thesis 
      by (auto simp: Ex_less_Suc2)
  qed
qed simp_all

lemma memcmp_trans:
  "n \<le> length s1 \<Longrightarrow> n \<le> length s2 \<Longrightarrow> n \<le> length s3 \<Longrightarrow>
   memcmp s1 s2 n < 0 \<Longrightarrow> memcmp s2 s3 n < 0 \<Longrightarrow> memcmp s1 s3 n < 0"
proof (induction s1 s2 n arbitrary: s3 rule: memcmp.induct)
  case (2 x s1 y s2 n)
  then obtain z s3' where s3: "s3 = z # s3'" by (cases s3) auto
  with 2 show ?case
    by (auto split: if_splits)
qed simp_all

section \<open>Facts about masking\<close>

lemma length_mask_bytes [simp]: "length (mask_bytes bs n) = length bs"
  by (induction bs arbitrary: n) simp_all

lemma mask_bytes_idem: "mask_bytes (mask_bytes bs n) n = mask_bytes bs n"
  by (induction bs arbitrary: n) (simp_all add: and.assoc)

lemma mask_bytes_all: "8 * length bs \<le> n \<Longrightarrow> mask_bytes bs n = bs"
  by (induction bs arbitrary: n) simp_all

lemma mask_bytes_0: "mask_bytes bs 0 = replicate (length bs) 0"
  by (induction bs) simp_all

lemma take_mask_bytes: "8 * k \<le> n \<Longrightarrow> take k (mask_bytes bs n) = take k bs"
proof (induction bs arbitrary: n k)
  case Nil
  show ?case by simp
next
  case (Cons b bs)
  show ?case
  proof (cases k)
    case 0
    then show ?thesis by simp
  next
    case (Suc j)
    with Cons.prems have "8 \<le> n" "8 * j \<le> n - 8" by simp_all
    with Cons.IH [of j "n - 8"] Suc show ?thesis by simp
  qed
qed

lemma bit_at_Cons:
  "bit_at (b # bs) i = (if i < 8 then bit b (7 - i) else bit_at bs (i - 8))"
proof (cases "i < 8")
  case True
  then show ?thesis by (simp add: bit_at_def)
next
  case False
  define j where "j = i - 8"
  with False have i: "i = j + 8" by simp
  have "(j + 8) div 8 = Suc (j div 8)" by simp
  then show ?thesis unfolding i by (simp add: bit_at_def)
qed

lemma bit_at_mask_bytes:
  "i < 8 * length bs \<Longrightarrow> bit_at (mask_bytes bs n) i \<longleftrightarrow> i < n \<and> bit_at bs i"
proof (induction bs arbitrary: n i)
  case Nil
  then show ?case by simp
next
  case (Cons b bs)
  show ?case
  proof (cases "i < 8")
    case i: True
    show ?thesis
    proof (cases "8 \<le> n")
      case True
      with i show ?thesis by (simp add: bit_at_Cons)
    next
      case n8: False
      show ?thesis
      proof (cases "n = 0")
        case True
        with i show ?thesis by (simp add: bit_at_Cons)
      next
        case False
        with n8 i have "7 - i < 8 - n \<longleftrightarrow> \<not> i < n" by arith
        moreover have "7 - i < 8" by simp
        ultimately show ?thesis
          using False n8 i by (auto simp: bit_at_Cons bit_and_iff bit_not_iff bit_mask_iff)
      qed
    qed
  next
    case False
    with Cons.prems have less: "i - 8 < 8 * length bs" by simp
    show ?thesis
    proof (cases "8 \<le> n")
      case True
      with Cons.IH [OF less, of "n - 8"] False show ?thesis
        by (simp add: bit_at_Cons) arith
    next
      case n8: False
      with Cons.IH [OF less, of 0] False show ?thesis
        by (simp add: bit_at_Cons)
    qed
  qed
qed

lemma bytes_eqI:
  "length as = length bs \<Longrightarrow> (\<And>i. i < 8 * length as \<Longrightarrow> bit_at as i = bit_at bs i) \<Longrightarrow> as = bs"
proof (induction as bs rule: list_induct2)
  case Nil
  show ?case by simp
next
  case (Cons a as b bs)
  have "a = b"
  proof (rule bit_word_eqI)
    fix k assume "k < LENGTH(8)"
    then have k: "k < 8" by simp
    then have "7 - k < 8" "7 - (7 - k) = k" by arith+
    with Cons.prems [of "7 - k"] show "bit a k = bit b k"
      by (simp add: bit_at_Cons)
  qed
  moreover have "as = bs"
  proof (rule Cons.IH)
    fix i assume "i < 8 * length as"
    with Cons.prems [of "i + 8"] show "bit_at as i = bit_at bs i"
      by (simp add: bit_at_Cons)
  qed
  ultimately show ?case by simp
qed

lemma mask_bytes_cong:
  assumes "length as = length bs" and "\<And>i. i < n \<Longrightarrow> bit_at as i = bit_at bs i"
  shows "mask_bytes as n = mask_bytes bs n"
proof (rule bytes_eqI)
  show "length (mask_bytes as n) = length (mask_bytes bs n)" using assms(1) by simp
next
  fix i assume "i < 8 * length (mask_bytes as n)"
  then have "i < 8 * length as" "i < 8 * length bs" using assms(1) by simp_all
  then show "bit_at (mask_bytes as n) i = bit_at (mask_bytes bs n) i"
    using assms(2) [of i] by (auto simp: bit_at_mask_bytes)
qed

lemma IPAddr_in6_update_eq: "a\<lparr>in6 := bs\<rparr> = \<lparr>in6 = bs\<rparr>" for a :: IPAddr
  by (cases a) simp

lemma Mask_in_range:
  "0 \<le> n \<Longrightarrow> n \<le> 128 \<Longrightarrow> Mask a n = Inr \<lparr>in6 = mask_bytes (in6 a) (nat n)\<rparr>"
  by (simp add: Mask_def IPAddr_in6_update_eq)

lemma family_mask_bytes:
  assumes len: "length bs = 16" and v4: "family \<lparr>in6 = bs\<rparr> = IPv4 \<longrightarrow> 96 \<le> n"
  shows "family \<lparr>in6 = mask_bytes bs n\<rparr> = family \<lparr>in6 = bs\<rparr>"
proof (cases "96 \<le> n")
  case True
  then have "take 12 (mask_bytes bs n) = take 12 bs"
    by (simp add: take_mask_bytes)
  with len show ?thesis
    by (simp add: family_def memcmp_zero_iff length_v4_mapped_prefix)
next
  case False
  with v4 have six: "family \<lparr>in6 = bs\<rparr> = IPv6" by (cases "family \<lparr>in6 = bs\<rparr>") simp_all
  have "take 12 (mask_bytes bs n) \<noteq> v4_mapped_prefix"
  proof
    assume eq: "take 12 (mask_bytes bs n) = v4_mapped_prefix"
    have "take 12 (mask_bytes bs n) ! 11 = mask_bytes bs n ! 11" by simp
    with eq have "mask_bytes bs n ! 11 = 0xff" by (simp add: v4_mapped_prefix_def)
    then have "bit_at (mask_bytes bs n) 95" by (simp add: bit_at_def)
    with len have "95 < n" by (simp add: bit_at_mask_bytes)
    with False show False by simp
  qed
  with len six show ?thesis
    by (simp add: family_def memcmp_zero_iff length_v4_mapped_prefix)
qed

lemma Mask_partial_byte:
  "Mask addr_192_168_255_7 113 = Inr addr_192_168_128_0"
  by (simp add: Mask_def addr_192_168_255_7_def addr_192_168_128_0_def mask_eq_exp_minus_1)

lemma IPPrefix_eq_iff:
  assumes "wf_IPAddr (prefix p)" and "wf_IPAddr (prefix q)"
  shows "IPPrefix_eq p q \<longleftrightarrow> in6 (Prefix p) = in6 (Prefix q) \<and> Length p = Length q"
  using assms
  by (simp add: IPPrefix_eq_def Prefix_def IPAddr_eq_def wf_IPAddr_def memcmp_full_zero_iff)

lemma IPPrefix_ctor_Inr:
  assumes "wf_IPAddr a"
    and "len128 = (if family a = IPv4 then unat len + 96 else unat len)"
    and "len128 \<le> 128"
  shows "IPPrefix_ctor a len =
    Inr \<lparr>prefix = \<lparr>in6 = mask_bytes (in6 a) len128\<rparr>, length' = of_nat len128\<rparr>"
proof -
  have "(if family a = IPv4 then int (unat len) + 96 else int (unat len)) = int len128"
    using assms(2) by simp
  moreover have "Mask a (int len128) = Inr \<lparr>in6 = mask_bytes (in6 a) len128\<rparr>"
    using assms(3) by (simp add: Mask_in_range)
  ultimately show ?thesis
    by (simp add: IPPrefix_ctor_def Let_def del: of_nat_unat)
qed

section \<open>Facts about byte order\<close>

lemma byte_consts:
  "(0xff :: uint32_t) = mask 8" "(0xff00 :: uint32_t) = push_bit 8 (mask 8)"
  "(0xff0000 :: uint32_t) = push_bit 16 (mask 8)"
  by (simp_all add: mask_eq_exp_minus_1)

lemma store32_load32_BigEndian:
  "store32 BigEndian (load32 BigEndian [b0, b1, b2, b3]) = [b0, b1, b2, b3]"
  apply simp
  apply (intro conjI; rule bit_word_eqI)
  apply (auto simp: bit_simps dest: bit_imp_le_length)
  done

lemma bswap32_bytes:
  "store32 LittleEndian (bswap32 (load32 LittleEndian [b0, b1, b2, b3])) = [b3, b2, b1, b0]"
  apply (simp add: bswap32_def byte_consts del: mask_numeral)
  apply (intro conjI; rule bit_word_eqI)
  apply (auto simp: bit_simps dest: bit_imp_le_length)
  done

lemma length_store32 [simp]: "length (store32 e w) = 4"
  by (cases e) simp_all

lemma length4E:
  assumes "length bs = 4"
  obtains b0 b1 b2 b3 where "bs = [b0, b1, b2, b3]"
  using assms by (auto simp: length_Suc_conv numeral_eq_Suc)

lemma htonl_word_LittleEndian:
  "length bs = 4 \<Longrightarrow> store32 LittleEndian (htonl LittleEndian (load32 LittleEndian bs)) = rev bs"
  by (erule length4E) (simp only: htonl.simps bswap32_bytes rev.simps append.simps)

lemma htonl_word_BigEndian:
  "length bs = 4 \<Longrightarrow> store32 BigEndian (htonl BigEndian (load32 BigEndian bs)) = bs"
  by (erule length4E) (simp only: htonl.simps store32_load32_BigEndian)

lemma htonl_at_append:
  "length pre = off \<Longrightarrow> length w = 4 \<Longrightarrow>
   htonl_at e off (pre @ w @ post) = pre @ store32 e (htonl e (load32 e w)) @ post"
  by (simp add: htonl_at_def)

lemma upt_0_4: "[0..<4] = [0, 1, 2, 3]"
  by (simp add: upt_rec)

lemma htonl_all_words:
  assumes "length w0 = 4" and "length w1 = 4" and "length w2 = 4" and "length w3 = 4"
  shows "fold (\<lambda>i. htonl_at e (i * 4)) [0..<4] (w0 @ w1 @ w2 @ w3) =
    store32 e (htonl e (load32 e w0)) @ store32 e (htonl e (load32 e w1))
    @ store32 e (htonl e (load32 e w2)) @ store32 e (htonl e (load32 e w3))"
proof -
  let ?h = "\<lambda>w. store32 e (htonl e (load32 e w))"
  have 0: "htonl_at e 0 (w0 @ w1 @ w2 @ w3) = ?h w0 @ w1 @ w2 @ w3"
    using htonl_at_append [of "[]" 0 w0 e "w1 @ w2 @ w3"] assms by simp
  have 1: "htonl_at e 4 (?h w0 @ w1 @ w2 @ w3) = ?h w0 @ ?h w1 @ w2 @ w3"
    using htonl_at_append [of "?h w0" 4 w1 e "w2 @ w3"] assms by simp
  have 2: "htonl_at e 8 (?h w0 @ ?h w1 @ w2 @ w3) = ?h w0 @ ?h w1 @ ?h w2 @ w3"
    using htonl_at_append [of "?h w0 @ ?h w1" 8 w2 e "w3"] assms by simp
  have 3: "htonl_at e 12 (?h w0 @ ?h w1 @ ?h w2 @ w3) = ?h w0 @ ?h w1 @ ?h w2 @ ?h w3"
    using htonl_at_append [of "?h w0 @ ?h w1 @ ?h w2" 12 w3 e "[]"] assms by simp
  show ?thesis
    by (simp add: upt_0_4 0 1 2 3)
qed

lemma htonl_word:
  "length bs = 4 \<Longrightarrow>
   store32 e (htonl e (load32 e bs)) = (if e = LittleEndian then rev bs else bs)"
  by (cases e) (simp_all add: htonl_word_LittleEndian htonl_word_BigEndian del: htonl.simps
      store32.simps)

section \<open>Facts about text conversion\<close>

lemma index_of_nth:
  "distinct xs \<Longrightarrow> d < length xs \<Longrightarrow> index_of (xs ! d) xs = Some d"
proof (induction xs arbitrary: d)
  case Nil
  then show ?case by simp
next
  case (Cons x xs)
  show ?case
  proof (cases d)
    case 0
    then show ?thesis by simp
  next
    case (Suc e)
    with Cons.prems have "xs ! e \<in> set xs" "x \<notin> set xs" by simp_all
    then have "xs ! e \<noteq> x" by auto
    with Cons.IH [of e] Cons.prems Suc show ?thesis by simp
  qed
qed

lemma digit_val_digit_char: "d < 16 \<Longrightarrow> digit_val (digit_char d) = Some d"
proof -
  assume "d < 16"
  moreover have "distinct hex_digits" "length hex_digits = 16"
    by (simp_all add: hex_digits_def)
  ultimately have "index_of (hex_digits ! d) hex_digits = Some d"
    by (intro index_of_nth) simp_all
  then show ?thesis by (simp add: digit_val_def digit_char_def)
qed

lemma digit_val_separators [simp]:
  "digit_val CHR '':'' = None" "digit_val CHR ''.'' = None"
  by (simp_all add: digit_val_def hex_digits_def)

lemma parse_num_snoc:
  "parse_num b acc (xs @ [c]) =
     (case parse_num b acc xs of
        None \<Rightarrow> None
      | Some v \<Rightarrow> (case digit_val c of
                    None \<Rightarrow> None
                  | Some d \<Rightarrow> if d < b then Some (v * b + d) else None))"
  by (induction xs arbitrary: acc) (auto split: option.splits)

lemma parse_num_dec_string: "parse_num 10 0 (dec_string n) = Some n"
proof (induction n rule: dec_string.induct)
  case (1 n)
  show ?case
  proof (cases "n < 10")
    case True
    then show ?thesis
      by (subst dec_string.simps) (simp add: digit_val_digit_char)
  next
    case False
    with 1 have "parse_num 10 0 (dec_string (n div 10)) = Some (n div 10)" by simp
    with False show ?thesis
      by (subst dec_string.simps) (simp add: parse_num_snoc digit_val_digit_char)
  qed
qed

lemma parse_num_hex_string: "parse_num 16 0 (hex_string n) = Some n"
proof (induction n rule: hex_string.induct)
  case (1 n)
  show ?case
  proof (cases "n < 16")
    case True
    then show ?thesis
      by (subst hex_string.simps) (simp add: digit_val_digit_char)
  next
    case False
    with 1 have "parse_num 16 0 (hex_string (n div 16)) = Some (n div 16)" by simp
    with False show ?thesis
      by (subst hex_string.simps) (simp add: parse_num_snoc digit_val_digit_char)
  qed
qed

lemma dec_string_digits: "c \<in> set (dec_string n) \<Longrightarrow> digit_val c \<noteq> None"
proof (induction n rule: dec_string.induct)
  case (1 n)
  show ?case
  proof (cases "n < 10")
    case True
    with "1.prems" show ?thesis
      by (subst (asm) dec_string.simps) (simp add: digit_val_digit_char)
  next
    case False
    with "1.prems" have "c \<in> set (dec_string (n div 10)) \<or> c = digit_char (n mod 10)"
      by (subst (asm) dec_string.simps) auto
    with False "1.IH" show ?thesis
      by (auto simp: digit_val_digit_char)
  qed
qed

lemma hex_string_digits: "c \<in> set (hex_string n) \<Longrightarrow> digit_val c \<noteq> None"
proof (induction n rule: hex_string.induct)
  case (1 n)
  show ?case
  proof (cases "n < 16")
    case True
    with "1.prems" show ?thesis
      by (subst (asm) hex_string.simps) (simp add: digit_val_digit_char)
  next
    case False
    with "1.prems" have "c \<in> set (hex_string (n div 16)) \<or> c = digit_char (n mod 16)"
      by (subst (asm) hex_string.simps) auto
    with False "1.IH" show ?thesis
      by (auto simp: digit_val_digit_char)
  qed
qed

lemma dec_string_nonempty [simp]: "dec_string n \<noteq> []"
  by (subst dec_string.simps) simp

lemma hex_string_nonempty [simp]: "hex_string n \<noteq> []"
  by (subst hex_string.simps) simp

lemma dec_string_no_separator [simp]:
  "CHR ''.'' \<notin> set (dec_string n)" "CHR '':'' \<notin> set (dec_string n)"
  using dec_string_digits [of "CHR ''.''" n] dec_string_digits [of "CHR '':''" n] by auto

lemma hex_string_no_separator [simp]:
  "CHR ''.'' \<notin> set (hex_string n)" "CHR '':'' \<notin> set (hex_string n)"
  using hex_string_digits [of "CHR ''.''" n] hex_string_digits [of "CHR '':''" n] by auto

lemma parse_octet_dec_string: "n \<le> 255 \<Longrightarrow> parse_octet (dec_string n) = Inr n"
  by (simp add: parse_octet_def parse_field_def parse_num_dec_string)

lemma parse_group_hex_string: "g \<le> 65535 \<Longrightarrow> parse_group (hex_string g) = Inr g"
  by (simp add: parse_group_def parse_field_def parse_num_hex_string)

lemma split_nonempty [simp]: "split sep s \<noteq> []"
  by (induction s) (auto split: list.splits)

lemma split_append_sep:
  "sep \<notin> set t \<Longrightarrow> split sep (t @ sep # rest) = t # split sep rest"
  by (induction t) auto

lemma split_no_sep: "sep \<notin> set t \<Longrightarrow> split sep t = [t]"
  by (induction t) auto

lemma split_join:
  "ts \<noteq> [] \<Longrightarrow> \<forall>t \<in> set ts. sep \<notin> set t \<Longrightarrow> split sep (join [sep] ts) = ts"
proof (induction "[sep]" ts rule: join.induct)
  case 1
  then show ?case by simp
next
  case (2 t)
  then show ?case by (simp add: split_no_sep)
next
  case (3 t u ts)
  then show ?case by (simp add: split_append_sep)
qed

lemma length_join_tokens:
  "set (join [sep] ts) \<subseteq> insert sep (\<Union> (set ` set ts))"
  by (induction "[sep]" ts rule: join.induct) auto

lemma sep_in_join: "sep \<in> set (join [sep] (t # u # ts))"
  by simp

lemma traverse_map:
  "\<forall>x \<in> set xs. f x = Inr (g x) \<Longrightarrow> traverse f xs = Inr (map g xs)"
  by (induction xs) simp_all

lemma traverse_parse_group:
  "\<forall>g \<in> set gs. g \<le> 65535 \<Longrightarrow> traverse parse_group (map hex_string gs) = Inr gs"
  by (induction gs) (simp_all add: parse_group_hex_string)

lemma parse_groups_hex:
  "\<forall>g \<in> set gs. g \<le> 65535 \<Longrightarrow> parse_groups (map hex_string gs) = Inr gs"
proof (induction gs)
  case Nil
  show ?case by simp
next
  case (Cons g gs)
  show ?case
  proof (cases gs)
    case Nil
    with Cons.prems show ?thesis by (simp add: parse_group_hex_string)
  next
    case (Cons h hs)
    with Cons.IH Cons.prems show ?thesis by (simp add: parse_group_hex_string)
  qed
qed

lemma split_dcolon_append:
  "CHR '':'' \<notin> set t \<Longrightarrow>
   split_dcolon (t @ rest) = map_option (\<lambda>(l, r). (t @ l, r)) (split_dcolon rest)"
proof (induction t)
  case Nil
  show ?case by (simp add: option.map_ident split_def)
next
  case (Cons c t)
  show ?case
  proof (cases "t @ rest")
    case Nil
    then show ?thesis by simp
  next
    case (Cons d cs)
    with Cons.IH Cons.prems show ?thesis
      by (auto simp: option.map_comp comp_def split_def)
  qed
qed

lemma split_dcolon_colon:
  "c \<noteq> CHR '':'' \<Longrightarrow>
   split_dcolon (CHR '':'' # c # rest) =
     map_option (\<lambda>(l, r). (CHR '':'' # l, r)) (split_dcolon (c # rest))"
  by simp


lemma join_starts:
  "t \<noteq> [] \<Longrightarrow> CHR '':'' \<notin> set t \<Longrightarrow>
   \<exists>c r. join sep (t # ts) @ rest = c # r \<and> c \<noteq> CHR '':''"
  by (cases t; cases ts) auto

lemma split_dcolon_join_None:
  "tokens_ok ts \<Longrightarrow> split_dcolon (join '':'' ts) = None"
proof (induction "'':''" ts rule: join.induct)
  case 1
  show ?case by simp
next
  case (2 t)
  then have "CHR '':'' \<notin> set t" by (simp add: tokens_ok_def)
  from split_dcolon_append [OF this, of "[]"] show ?case by simp
next
  case (3 t u ts)
  then have t: "CHR '':'' \<notin> set t" and u: "u \<noteq> []" "CHR '':'' \<notin> set u"
    and ok: "tokens_ok (u # ts)"
    by (simp_all add: tokens_ok_def)
  from join_starts [OF u, of "'':''" ts "[]"] obtain c r
    where cr: "join '':'' (u # ts) = c # r" "c \<noteq> CHR '':''" by auto
  from "3.hyps" [OF ok] cr have "split_dcolon (CHR '':'' # join '':'' (u # ts)) = None"
    by simp
  with split_dcolon_append [OF t, of "CHR '':'' # join '':'' (u # ts)"] show ?case
    by simp
qed

lemma split_dcolon_join_Some:
  "tokens_ok ts \<Longrightarrow>
   split_dcolon (join '':'' ts @ ''::'' @ y) = Some (join '':'' ts, y)"
proof (induction "'':''" ts rule: join.induct)
  case 1
  show ?case by simp
next
  case (2 t)
  then have "CHR '':'' \<notin> set t" by (simp add: tokens_ok_def)
  from split_dcolon_append [OF this, of "''::'' @ y"] show ?case by simp
next
  case (3 t u ts)
  then have t: "CHR '':'' \<notin> set t" and u: "u \<noteq> []" "CHR '':'' \<notin> set u"
    and ok: "tokens_ok (u # ts)"
    by (simp_all add: tokens_ok_def)
  from join_starts [OF u, of "'':''" ts "''::'' @ y"] obtain c r
    where cr: "join '':'' (u # ts) @ ''::'' @ y = c # r" "c \<noteq> CHR '':''" by auto
  from "3.hyps" [OF ok] cr
  have "split_dcolon (CHR '':'' # join '':'' (u # ts) @ ''::'' @ y)
      = Some (CHR '':'' # join '':'' (u # ts), y)"
    by simp
  with split_dcolon_append [OF t, of "CHR '':'' # join '':'' (u # ts) @ ''::'' @ y"]
  show ?case by simp
qed

lemma join_empty_iff: "tokens_ok ts \<Longrightarrow> join '':'' ts = [] \<longleftrightarrow> ts = []"
  by (induction "'':''" ts rule: join.induct) (simp_all add: tokens_ok_def)

lemma tokens_ok_hex [simp]: "tokens_ok (map hex_string gs)"
  by (simp add: tokens_ok_def)

lemma zero_run_le: "zero_run gs \<le> length gs"
  by (simp add: zero_run_def length_takeWhile_le)

lemma take_zero_run: "take (zero_run gs) gs = replicate (zero_run gs) 0"
  by (induction gs) (simp_all add: zero_run_def)

lemma best_zero_run_zeros:
  "best_zero_run gs = (i, n) \<Longrightarrow> i + n \<le> length gs \<and> take n (drop i gs) = replicate n 0"
proof (induction gs arbitrary: i n)
  case Nil
  then show ?case by simp
next
  case (Cons g gs)
  obtain j m where jm: "best_zero_run gs = (j, m)" by (cases "best_zero_run gs")
  show ?case
  proof (cases "m \<le> zero_run (g # gs)")
    case True
    with Cons.prems jm have "i = 0" "n = zero_run (g # gs)" by (simp_all add: Let_def)
    then show ?thesis
      using zero_run_le [of "g # gs"] take_zero_run [of "g # gs"] by simp
  next
    case False
    with Cons.prems jm have "i = Suc j" "n = m" by (simp_all add: Let_def)
    with Cons.IH [OF jm] show ?thesis by simp
  qed
qed

lemma refill_zero_run:
  assumes "best_zero_run gs = (i, n)"
  shows "take i gs @ replicate n 0 @ drop (i + n) gs = gs"
proof -
  from best_zero_run_zeros [OF assms]
  have zeros: "take n (drop i gs) = replicate n 0" by simp
  have "take i gs @ (take n (drop i gs) @ drop n (drop i gs)) = gs"
    by (simp only: append_take_drop_id)
  moreover have "drop n (drop i gs) = drop (i + n) gs"
    by (simp add: add.commute)
  ultimately show ?thesis using zeros by simp
qed

lemma unat_byte_less: "unat (b :: uint8_t) < 256"
  using unsigned_less [of b] by simp

lemma IPAddr_eta: "\<lparr>in6 = in6 a\<rparr> = a" for a :: IPAddr
  by (cases a) simp

lemma parse_left_side:
  assumes "\<forall>g \<in> set xs. g \<le> 65535"
  shows "(if join '':'' (map hex_string xs) = [] then Inr []
      else traverse parse_group (split CHR '':'' (join '':'' (map hex_string xs)))) = Inr xs"
proof (cases xs)
  case Nil
  then show ?thesis by simp
next
  case (Cons y ys)
  then have ne: "map hex_string xs \<noteq> []" by simp
  then have "split CHR '':'' (join '':'' (map hex_string xs)) = map hex_string xs"
    by (intro split_join) simp_all
  moreover have "join '':'' (map hex_string xs) \<noteq> []"
    using ne by (simp add: join_empty_iff)
  ultimately show ?thesis using assms by (simp add: traverse_parse_group)
qed

lemma parse_right_side:
  assumes "\<forall>g \<in> set xs. g \<le> 65535"
  shows "(if join '':'' (map hex_string xs) = [] then Inr []
      else parse_groups (split CHR '':'' (join '':'' (map hex_string xs)))) = Inr xs"
proof (cases xs)
  case Nil
  then show ?thesis by simp
next
  case (Cons y ys)
  then have ne: "map hex_string xs \<noteq> []" by simp
  then have "split CHR '':'' (join '':'' (map hex_string xs)) = map hex_string xs"
    by (intro split_join) simp_all
  moreover have "join '':'' (map hex_string xs) \<noteq> []"
    using ne by (simp add: join_empty_iff)
  ultimately show ?thesis using assms by (simp add: parse_groups_hex)
qed

lemma bytes_of_groups_of:
  "even (length bs) \<Longrightarrow> bytes_of_groups (groups_of bs) = bs"
proof (induction bs rule: groups_of.induct)
  case (1 hi lo bs)
  have "unat lo < 256" by (rule unat_byte_less)
  then have "(256 * unat hi + unat lo) div 256 = unat hi"
    "(256 * unat hi + unat lo) mod 256 = unat lo"
    by simp_all
  with 1 show ?case by (simp add: bytes_of_groups_def)
qed (simp_all add: bytes_of_groups_def)

lemma length_groups_of: "length (groups_of bs) = length bs div 2"
  by (induction bs rule: groups_of.induct) simp_all

lemma groups_of_bound: "g \<in> set (groups_of bs) \<Longrightarrow> g \<le> 65535"
proof (induction bs rule: groups_of.induct)
  case (1 hi lo bs)
  have "unat lo < 256" "unat hi < 256" by (rule unat_byte_less)+
  with 1 show ?case by auto
qed simp_all

lemma parse_v6_format_groups:
  assumes len: "length gs = 8" and bound: "\<forall>g \<in> set gs. g \<le> 65535"
  shows "parse_v6 (format_groups gs) = Inr gs"
proof -
  obtain i n where run: "best_zero_run gs = (i, n)" by (cases "best_zero_run gs")
  show ?thesis
  proof (cases "2 \<le> n")
    case False
    with run have fmt: "format_groups gs = join '':'' (map hex_string gs)"
      by (simp add: format_groups_def)
    have "gs \<noteq> []" using len by auto
    then have "split CHR '':'' (join '':'' (map hex_string gs)) = map hex_string gs"
      by (intro split_join) simp_all
    with len bound show ?thesis
      by (simp add: fmt parse_v6_def split_dcolon_join_None parse_groups_hex)
  next
    case True
    let ?L = "map hex_string (take i gs)" and ?R = "map hex_string (drop (i + n) gs)"
    from run True have fmt: "format_groups gs = join '':'' ?L @ ''::'' @ join '':'' ?R"
      by (simp add: format_groups_def)
    from best_zero_run_zeros [OF run] have in_range: "i + n \<le> length gs" by simp
    have dc: "split_dcolon (format_groups gs) = Some (join '':'' ?L, join '':'' ?R)"
      unfolding fmt by (rule split_dcolon_join_Some) simp
    have noR: "split_dcolon (join '':'' ?R) = None"
      by (rule split_dcolon_join_None) simp
    have bl: "\<forall>g \<in> set (take i gs). g \<le> 65535" and br: "\<forall>g \<in> set (drop (i + n) gs). g \<le> 65535"
      using bound by (auto dest: in_set_takeD in_set_dropD)
    have left: "(if join '':'' ?L = [] then Inr []
        else traverse parse_group (split CHR '':'' (join '':'' ?L))) = Inr (take i gs)"
      using bl by (rule parse_left_side)
    have right: "(if join '':'' ?R = [] then Inr []
        else parse_groups (split CHR '':'' (join '':'' ?R))) = Inr (drop (i + n) gs)"
      using br by (rule parse_right_side)
    have cnt: "length (take i gs) + length (drop (i + n) gs) = 8 - n"
      using in_range len by simp
    with True have le7: "length (take i gs) + length (drop (i + n) gs) \<le> 7" by simp
    have fill: "8 - (length (take i gs) + length (drop (i + n) gs)) = n"
      using cnt in_range len by simp
    have "parse_v6 (format_groups gs) =
        Inr (take i gs @ replicate n 0 @ drop (i + n) gs)"
      unfolding parse_v6_def dc using noR left right le7 fill
      by (simp del: length_take length_drop)
    with refill_zero_run [OF run] show ?thesis by simp
  qed
qed

lemma colon_in_format_groups:
  assumes "length gs = 8"
  shows "CHR '':'' \<in> set (format_groups gs)"
proof -
  obtain i n where run: "best_zero_run gs = (i, n)" by (cases "best_zero_run gs")
  show ?thesis
  proof (cases "2 \<le> n")
    case True
    with run show ?thesis by (simp add: format_groups_def)
  next
    case False
    from assms obtain g h hs where "gs = g # h # hs"
      by (cases gs; cases "tl gs") auto
    with run False show ?thesis by (simp add: format_groups_def)
  qed
qed

lemma no_colon_in_dotted:
  "CHR '':'' \<notin> set (join ''.'' (map (dec_string \<circ> unat) bs))"
  using length_join_tokens [of "CHR ''.''" "map (dec_string \<circ> unat) bs"] by auto

lemma parse_v4_dotted:
  fixes bs :: "uint8_t list"
  assumes "length bs = 4"
  shows "parse_v4 (join ''.'' (map (dec_string \<circ> unat) bs)) = Inr (map unat bs)"
proof -
  let ?ts = "map (dec_string \<circ> unat) bs"
  from assms have "?ts \<noteq> []" by auto
  then have "split CHR ''.'' (join ''.'' ?ts) = ?ts"
    by (intro split_join) simp_all
  moreover have "traverse parse_octet ?ts = Inr (map unat bs)"
  proof -
    have "\<forall>b \<in> set bs. parse_octet (dec_string (unat b)) = Inr (unat b)"
    proof
      fix b :: uint8_t
      have "unat b < 256" by (rule unat_byte_less)
      then show "parse_octet (dec_string (unat b)) = Inr (unat b)"
        by (simp add: parse_octet_dec_string)
    qed
    then have "traverse parse_octet (map (\<lambda>b. dec_string (unat b)) bs) = Inr (map unat bs)"
      by (induction bs) simp_all
    then show ?thesis by (simp add: comp_def)
  qed
  ultimately show ?thesis using assms by (simp add: parse_v4_def)
qed

lemma AsString_examples:
  "AsString addr_192_168_1_2 = ''192.168.1.2''"
  "AsString addr_2001_db8 = ''2001:db8::1:0:0:1''"
  "AsString addr_loopback6 = ''::1''"
  by (simp_all add: AsString_def family_def v4_mapped_prefix_def addr_192_168_1_2_def
      addr_2001_db8_def addr_loopback6_def format_groups_def zero_run_def Let_def
      dec_string.simps hex_string.simps digit_char_def hex_digits_def)

lemma parse_rejects:
  "parse ''1.2.3'' = Inl (ParseError ''1.2.3'' SyntaxError)"
  "parse ''1.2.3.256'' = Inl (ParseError ''1.2.3.256'' RangeError)"
  "parse ''1.2.3.4x'' = Inl (ParseError ''1.2.3.4x'' SyntaxError)"
  "parse ''1::2::3'' = Inl (ParseError ''1::2::3'' SyntaxError)"
  by (simp_all add: parse_def parse_v4_def parse_v6_def parse_octet_def parse_group_def
      parse_field_def digit_val_def hex_digits_def)

section \<open>The claims\<close>

lemma family_examples:
  "family addr_192_168_1_2 = IPv4" "family addr_loopback6 = IPv6"
  by (simp_all add: family_def addr_192_168_1_2_def addr_loopback6_def v4_mapped_prefix_def)

text \<open>
  Claim C4. The order on addresses is the lexicographic order of the 16 bytes, compared
  first byte first as unsigned values: \<open>a < b\<close> holds exactly when the arrays agree up to
  some position where the byte of \<open>a\<close> is the smaller. Equality is equality of the 16
  bytes. Of \<open>a < b\<close>, \<open>a == b\<close>, \<open>b < a\<close> exactly one holds, and \<open>a < b\<close> with \<open>b < c\<close> gives
  \<open>a < c\<close>.
\<close>

theorem IPAddr_order_total:
  assumes "wf_IPAddr a" and "wf_IPAddr b" and "wf_IPAddr c"
  shows "(IPAddr_less a b \<longleftrightarrow>
            (\<exists>i<16. take i (in6 a) = take i (in6 b) \<and> in6 a ! i < in6 b ! i))
       \<and> (IPAddr_eq a b \<longleftrightarrow> in6 a = in6 b)
       \<and> ((IPAddr_less a b \<and> \<not> IPAddr_eq a b \<and> \<not> IPAddr_less b a)
          \<or> (\<not> IPAddr_less a b \<and> IPAddr_eq a b \<and> \<not> IPAddr_less b a)
          \<or> (\<not> IPAddr_less a b \<and> \<not> IPAddr_eq a b \<and> IPAddr_less b a))
       \<and> (IPAddr_less a b \<and> IPAddr_less b c \<longrightarrow> IPAddr_less a c)"
proof -
  from assms have len: "length (in6 a) = 16" "length (in6 b) = 16" "length (in6 c) = 16"
    by (simp_all add: wf_IPAddr_def)
  have lex: "IPAddr_less a b \<longleftrightarrow>
      (\<exists>i<16. take i (in6 a) = take i (in6 b) \<and> in6 a ! i < in6 b ! i)"
    unfolding IPAddr_less_def using len by (simp add: memcmp_less_iff)
  have eq: "IPAddr_eq a b \<longleftrightarrow> in6 a = in6 b"
    unfolding IPAddr_eq_def using len by (simp add: memcmp_full_zero_iff)
  have tri: "(IPAddr_less a b \<and> \<not> IPAddr_eq a b \<and> \<not> IPAddr_less b a)
          \<or> (\<not> IPAddr_less a b \<and> IPAddr_eq a b \<and> \<not> IPAddr_less b a)
          \<or> (\<not> IPAddr_less a b \<and> \<not> IPAddr_eq a b \<and> IPAddr_less b a)"
    unfolding IPAddr_less_def IPAddr_eq_def
    using memcmp_sym [of "in6 b" "in6 a" 16] by arith
  have trans: "IPAddr_less a b \<and> IPAddr_less b c \<longrightarrow> IPAddr_less a c"
    unfolding IPAddr_less_def using len memcmp_trans [of 16 "in6 a" "in6 b" "in6 c"] by simp
  from lex eq tri trans show ?thesis by blast
qed

theorem IPAddr_order_total_witness:
  "wf_IPAddr addr_loopback6 \<and> wf_IPAddr addr_192_168_1_2
   \<and> IPAddr_less addr_loopback6 addr_192_168_1_2
   \<and> \<not> IPAddr_eq addr_loopback6 addr_192_168_1_2
   \<and> \<not> IPAddr_less addr_192_168_1_2 addr_loopback6"
  using IPAddr_order_total [of addr_loopback6 addr_192_168_1_2 addr_192_168_1_2]
  by (simp add: wf_IPAddr_def addr_loopback6_def addr_192_168_1_2_def IPAddr_less_def
      IPAddr_eq_def)

text \<open>
  Claim C7. \<open>family\<close> returns \<open>IPv4\<close> exactly when the first 12 bytes are the mapped-prefix
  constant and \<open>IPv6\<close> otherwise. It is computed from the bytes alone (addresses with the
  same bytes have the same family, and an address has no other field), so \<^verbatim>\<open>==\<close> holds
  exactly when all 16 bytes agree, which is when the two values are the same.
\<close>

theorem family_from_bytes:
  assumes "wf_IPAddr a" and "wf_IPAddr b"
  shows "(family a = IPv4 \<longleftrightarrow> take 12 (in6 a) = v4_mapped_prefix)
       \<and> (family a = IPv6 \<longleftrightarrow> take 12 (in6 a) \<noteq> v4_mapped_prefix)
       \<and> (in6 a = in6 b \<longrightarrow> family a = family b)
       \<and> (IPAddr_eq a b \<longleftrightarrow> in6 a = in6 b)
       \<and> (IPAddr_eq a b \<longleftrightarrow> a = b)"
proof -
  have "in6 a = in6 b \<longrightarrow> family a = family b"
    by (simp add: family_def)
  moreover have "IPAddr_eq a b \<longleftrightarrow> in6 a = in6 b"
    using assms by (simp add: IPAddr_eq_def wf_IPAddr_def memcmp_full_zero_iff)
  ultimately show ?thesis
    using assms by (simp add: family_IPv4_iff family_IPv6_iff IPAddr_eq_iff)
qed

theorem family_from_bytes_witness:
  "wf_IPAddr addr_192_168_1_2 \<and> wf_IPAddr addr_loopback6
   \<and> family addr_192_168_1_2 = IPv4 \<and> family addr_loopback6 = IPv6
   \<and> \<not> IPAddr_eq addr_192_168_1_2 addr_loopback6"
  using family_from_bytes [of addr_192_168_1_2 addr_loopback6]
    family_from_bytes [of addr_loopback6 addr_192_168_1_2]
  by (simp add: wf_IPAddr_def addr_192_168_1_2_def addr_loopback6_def v4_mapped_prefix_def)

text \<open>
  Claim C8. \<open>IsLoopback\<close> holds exactly for the IPv4-family addresses whose first embedded
  octet (byte 12) is 127 and for the IPv6-family address \<^verbatim>\<open>::1\<close>.
\<close>

theorem IsLoopback_iff:
  assumes "wf_IPAddr a"
  shows "IsLoopback a \<longleftrightarrow>
     (family a = IPv4 \<and> in6 a ! 12 = 127)
   \<or> (family a = IPv6 \<and> in6 a = [0, 0, 0, 0, 0, 0, 0, 0, 0, 0, 0, 0, 0, 0, 0, 1])"
proof (cases "family a")
  case IPv4
  then show ?thesis by (simp add: IsLoopback_def)
next
  case IPv6
  from assms have "length (in6 a) = 16" by (simp add: wf_IPAddr_def)
  from list16_eq_iff [OF this] IPv6 show ?thesis
    by (simp add: IsLoopback_def)
qed

theorem IsLoopback_iff_witness:
  "wf_IPAddr addr_loopback6 \<and> IsLoopback addr_loopback6
   \<and> wf_IPAddr addr_192_168_1_2 \<and> \<not> IsLoopback addr_192_168_1_2"
  using IsLoopback_iff [of addr_loopback6] IsLoopback_iff [of addr_192_168_1_2] family_examples
  by (simp add: wf_IPAddr_def addr_loopback6_def addr_192_168_1_2_def)

text \<open>
  Claim C9. \<open>IsMulticast\<close> holds exactly for the IPv4-family addresses whose first embedded
  octet is 224 and for the IPv6-family addresses whose first byte is \<^verbatim>\<open>0xff\<close>. An IPv4
  address with a first octet above 224 (225 to 239 included) is not reported as multicast.
\<close>

theorem IsMulticast_iff:
  "(IsMulticast a \<longleftrightarrow>
      (family a = IPv4 \<and> in6 a ! 12 = 224) \<or> (family a = IPv6 \<and> in6 a ! 0 = 0xff))
   \<and> (family a = IPv4 \<and> 224 < in6 a ! 12 \<longrightarrow> \<not> IsMulticast a)"
  by (cases "family a") (auto simp: IsMulticast_def)

theorem IsMulticast_iff_witness:
  "family addr_239_1_1_1 = IPv4 \<and> \<not> IsMulticast addr_239_1_1_1
   \<and> family addr_224_0_0_1 = IPv4 \<and> IsMulticast addr_224_0_0_1
   \<and> family addr_ff02_1 = IPv6 \<and> IsMulticast addr_ff02_1"
  using IsMulticast_iff [of addr_239_1_1_1] IsMulticast_iff [of addr_224_0_0_1]
    IsMulticast_iff [of addr_ff02_1]
  by (simp add: addr_239_1_1_1_def addr_224_0_0_1_def addr_ff02_1_def family_def
      v4_mapped_prefix_def)

text \<open>
  Claim C10. \<open>IsBroadcast\<close> holds exactly for the IPv4-family address whose four embedded
  bytes are all \<^verbatim>\<open>0xff\<close>; it is false for every IPv6-family address.
\<close>

theorem IsBroadcast_iff:
  assumes "wf_IPAddr a"
  shows "(IsBroadcast a \<longleftrightarrow> family a = IPv4 \<and> drop 12 (in6 a) = [0xff, 0xff, 0xff, 0xff])
       \<and> (family a = IPv6 \<longrightarrow> \<not> IsBroadcast a)"
proof -
  from assms have len: "length (in6 a) = 16" by (simp add: wf_IPAddr_def)
  have "drop 12 (in6 a) = [0xff, 0xff, 0xff, 0xff] \<longleftrightarrow>
      in6 a ! 12 = 0xff \<and> in6 a ! 13 = 0xff \<and> in6 a ! 14 = 0xff \<and> in6 a ! 15 = 0xff"
    using len by (simp add: list_eq_iff_nth_eq eval_nat_numeral All_less_Suc2)
  then show ?thesis
    by (cases "family a") (simp_all add: IsBroadcast_def)
qed

theorem IsBroadcast_iff_witness:
  "wf_IPAddr addr_255_255_255_255 \<and> IsBroadcast addr_255_255_255_255
   \<and> wf_IPAddr addr_all_ones \<and> family addr_all_ones = IPv6 \<and> \<not> IsBroadcast addr_all_ones"
  using IsBroadcast_iff [of addr_255_255_255_255] IsBroadcast_iff [of addr_all_ones]
  by (simp add: wf_IPAddr_def addr_255_255_255_255_def addr_all_ones_def family_def
      v4_mapped_prefix_def)

lemma IPPrefix_assign_prefix: "Prefix (IPPrefix_assign q p) = Prefix p"
  by (simp add: IPPrefix_assign_def IPAddr_assign_def Prefix_def)

lemma IPPrefix_assign_IPv6:
  "family (prefix p) = IPv6 \<Longrightarrow> IPPrefix_assign q p = p"
  by (simp add: IPPrefix_assign_def IPAddr_assign_def Prefix_def Length_def)

text \<open>
  Claim C1. Assignment of prefixes is meant to copy the value: the address, the length on
  the 128-bit scale, the family-relative length, and equality with the source. The
  assignment operator stores \<^verbatim>\<open>other.Length()\<close>, the family-relative length, into the
  field that holds the length on the 128-bit scale. For the IPv4 prefix 10.0.0.0/8 (field
  104) the address is copied, but the target's field becomes 8, its \<open>Length\<close> becomes
  \<open>8 - 96\<close> modulo 256, which is 168, and the target does not compare equal to the source.
  The copy constructor, which copies the field itself, returns the source unchanged.
\<close>

theorem IPPrefix_assign_IPv4_length:
  "Prefix (IPPrefix_assign prefix_default prefix_10_8) = Prefix prefix_10_8
   \<and> LengthIPv6 prefix_10_8 = 104
   \<and> LengthIPv6 (IPPrefix_assign prefix_default prefix_10_8) = 8
   \<and> Length prefix_10_8 = 8
   \<and> Length (IPPrefix_assign prefix_default prefix_10_8) = 168
   \<and> \<not> IPPrefix_eq (IPPrefix_assign prefix_default prefix_10_8) prefix_10_8
   \<and> IPPrefix_copy prefix_10_8 = prefix_10_8"
  by (simp add: IPPrefix_assign_def IPAddr_assign_def IPPrefix_eq_def IPPrefix_copy_def
      Prefix_def Length_def LengthIPv6_def prefix_10_8_def prefix_default_def
      addr_unspecified_def addr_10_0_0_0_def family_def v4_mapped_prefix_def)

text \<open>
  Claim C2. For a bit count \<open>n\<close> from 0 to 128, \<open>Mask\<close> returns an address \<open>m\<close> whose bit
  \<open>i\<close> is that of the argument for \<open>i < n\<close> and zero from \<open>n\<close> on, and masking \<open>m\<close> again
  with \<open>n\<close> returns \<open>m\<close>. Masking with 128 returns the address itself. Masking with 0
  returns the all-zero address, whatever the argument: the mapped-prefix marker is cleared
  too, and the all-zero address is of the IPv6 family.
\<close>

theorem Mask_laws:
  assumes "wf_IPAddr a" and "0 \<le> n" and "n \<le> 128"
  shows "(\<exists>m. Mask a n = Inr m \<and> Mask m n = Inr m \<and> wf_IPAddr m
            \<and> (\<forall>i<128. bit_at (in6 m) i \<longleftrightarrow> int i < n \<and> bit_at (in6 a) i))
       \<and> Mask a 128 = Inr a
       \<and> Mask a 0 = Inr addr_unspecified
       \<and> family addr_unspecified = IPv6"
proof -
  from assms(1) have len: "length (in6 a) = 16" by (simp add: wf_IPAddr_def)
  let ?m = "\<lparr>in6 = mask_bytes (in6 a) (nat n)\<rparr>"
  have 1: "Mask a n = Inr ?m" using assms(2,3) by (rule Mask_in_range)
  have 2: "Mask ?m n = Inr ?m"
    using assms(2,3) by (simp add: Mask_in_range mask_bytes_idem)
  have 3: "wf_IPAddr ?m" using len by (simp add: wf_IPAddr_def)
  have 4: "\<forall>i<128. bit_at (in6 ?m) i \<longleftrightarrow> int i < n \<and> bit_at (in6 a) i"
    using len assms(2) by (auto simp: bit_at_mask_bytes)
  have 5: "Mask a 128 = Inr a"
    using len by (cases a) (simp add: Mask_def mask_bytes_all)
  have "replicate 16 (0 :: uint8_t) = [0, 0, 0, 0, 0, 0, 0, 0, 0, 0, 0, 0, 0, 0, 0, 0]"
    by (simp add: numeral_eq_Suc)
  then have 6: "Mask a 0 = Inr addr_unspecified"
    using len by (simp add: Mask_def mask_bytes_0 IPAddr_in6_update_eq addr_unspecified_def)
  have 7: "family addr_unspecified = IPv6"
    by (simp add: family_def addr_unspecified_def v4_mapped_prefix_def)
  from 1 2 3 4 5 6 7 show ?thesis by blast
qed

theorem Mask_laws_witness:
  "wf_IPAddr addr_192_168_1_2 \<and> (0::int) \<le> 112 \<and> (112::int) \<le> 128
   \<and> Mask addr_192_168_1_2 112 = Inr addr_192_168_0_0
   \<and> Mask addr_192_168_0_0 112 = Inr addr_192_168_0_0
   \<and> Mask addr_192_168_1_2 128 = Inr addr_192_168_1_2
   \<and> Mask addr_192_168_1_2 0 = Inr addr_unspecified
   \<and> family addr_192_168_1_2 = IPv4 \<and> family addr_unspecified = IPv6"
  using Mask_laws [of addr_192_168_1_2 112]
  by (simp add: wf_IPAddr_def Mask_def addr_192_168_1_2_def addr_192_168_0_0_def
      family_def v4_mapped_prefix_def)

text \<open>
  Prefix construction. Two addresses of the same family that agree on the first \<open>len128\<close>
  bits, where \<open>len128\<close> is the length on the 128-bit scale (the family-relative length,
  plus 96 for IPv4), give the same prefix value, and the two compare equal. The address
  stored by the constructor is masked to the stored length: masking it again returns it.
  The constructed value reports the family-relative length it was built with and the
  family of the address. Equality of prefixes is equality of the pair of the stored
  address and the family-relative length.
\<close>

theorem IPPrefix_ctor_normalises:
  assumes "wf_IPAddr addr1" and "wf_IPAddr addr2"
    and "family addr1 = family addr2"
    and "len128 = (if family addr1 = IPv4 then unat len + 96 else unat len)"
    and "len128 \<le> 128"
    and "same_top_bits addr1 addr2 len128"
    and "wf_IPAddr (prefix p)" and "wf_IPAddr (prefix q)"
  shows "(\<exists>p1 p2. IPPrefix_ctor addr1 len = Inr p1 \<and> IPPrefix_ctor addr2 len = Inr p2
            \<and> IPPrefix_eq p1 p2 \<and> p1 = p2
            \<and> Mask (Prefix p1) (int (unat (LengthIPv6 p1))) = Inr (Prefix p1)
            \<and> LengthIPv6 p1 = of_nat len128 \<and> Length p1 = len
            \<and> family (Prefix p1) = family addr1)
       \<and> (IPPrefix_eq p q \<longleftrightarrow> in6 (Prefix p) = in6 (Prefix q) \<and> Length p = Length q)"
proof -
  from assms(1,2) have len: "length (in6 addr1) = 16" "length (in6 addr2) = 16"
    by (simp_all add: wf_IPAddr_def)
  let ?m = "\<lparr>in6 = mask_bytes (in6 addr1) len128\<rparr>"
  let ?p = "\<lparr>prefix = ?m, length' = of_nat len128\<rparr>"
  have c1: "IPPrefix_ctor addr1 len = Inr ?p"
    using assms(1,4,5) by (rule IPPrefix_ctor_Inr)
  have same: "mask_bytes (in6 addr2) len128 = mask_bytes (in6 addr1) len128"
    using len assms(6) by (intro mask_bytes_cong) (simp_all add: same_top_bits_def)
  have "IPPrefix_ctor addr2 len =
      Inr \<lparr>prefix = \<lparr>in6 = mask_bytes (in6 addr2) len128\<rparr>, length' = of_nat len128\<rparr>"
    using assms(2) assms(4) [unfolded assms(3)] assms(5) by (rule IPPrefix_ctor_Inr)
  with same have c2: "IPPrefix_ctor addr2 len = Inr ?p" by simp
  have eq: "IPPrefix_eq ?p ?p"
    using len by (simp add: IPPrefix_eq_def Prefix_def IPAddr_eq_def memcmp_full_zero_iff)
  from assms(5) have "len128 < 256" by simp
  then have un: "unat (of_nat len128 :: uint8_t) = len128"
    by (simp add: unat_of_nat)
  have masked: "Mask (Prefix ?p) (int (unat (LengthIPv6 ?p))) = Inr (Prefix ?p)"
    using assms(5) un
    by (simp add: Prefix_def LengthIPv6_def Mask_in_range mask_bytes_idem del: of_nat_unat)
  have "family \<lparr>in6 = in6 addr1\<rparr> = IPv4 \<longrightarrow> 96 \<le> len128"
    using assms(4) by (simp add: family_def)
  with len(1) have "family ?m = family \<lparr>in6 = in6 addr1\<rparr>"
    by (intro family_mask_bytes)
  then have fam: "family ?m = family addr1" by (simp add: family_def)
  have l6: "LengthIPv6 ?p = of_nat len128" by (simp add: LengthIPv6_def)
  have l: "Length ?p = len"
    using fam assms(4) by (simp add: Length_def)
  have gen: "IPPrefix_eq p q \<longleftrightarrow> in6 (Prefix p) = in6 (Prefix q) \<and> Length p = Length q"
    using assms(7,8) by (rule IPPrefix_eq_iff)
  have "family (Prefix ?p) = family addr1" using fam by (simp add: Prefix_def)
  with c1 c2 eq masked l6 l gen show ?thesis by blast
qed

theorem IPPrefix_ctor_normalises_witness:
  "wf_IPAddr addr_10_0_0_0 \<and> wf_IPAddr addr_10_255_255_255
   \<and> family addr_10_0_0_0 = IPv4 \<and> family addr_10_255_255_255 = IPv4
   \<and> same_top_bits addr_10_0_0_0 addr_10_255_255_255 104
   \<and> in6 addr_10_0_0_0 \<noteq> in6 addr_10_255_255_255
   \<and> IPPrefix_ctor addr_10_0_0_0 8 = Inr prefix_10_8
   \<and> IPPrefix_ctor addr_10_255_255_255 8 = Inr prefix_10_8
   \<and> IPPrefix_eq prefix_10_8 prefix_10_8
   \<and> Length prefix_10_8 = 8 \<and> LengthIPv6 prefix_10_8 = 104"
proof -
  have wf: "wf_IPAddr addr_10_0_0_0" "wf_IPAddr addr_10_255_255_255"
    by (simp_all add: wf_IPAddr_def addr_10_0_0_0_def addr_10_255_255_255_def)
  have fam: "family addr_10_0_0_0 = IPv4" "family addr_10_255_255_255 = IPv4"
    by (simp_all add: family_def addr_10_0_0_0_def addr_10_255_255_255_def v4_mapped_prefix_def)
  have top: "same_top_bits addr_10_0_0_0 addr_10_255_255_255 104"
    unfolding same_top_bits_def by code_simp
  have wfp: "wf_IPAddr (prefix prefix_10_8)"
    by (simp add: prefix_10_8_def wf)
  have c: "IPPrefix_ctor addr_10_0_0_0 8 = Inr prefix_10_8"
    "IPPrefix_ctor addr_10_255_255_255 8 = Inr prefix_10_8"
    by (simp_all add: IPPrefix_ctor_def family_def v4_mapped_prefix_def Mask_def
        prefix_10_8_def addr_10_0_0_0_def addr_10_255_255_255_def)
  have ne: "in6 addr_10_0_0_0 \<noteq> in6 addr_10_255_255_255"
    by (simp add: addr_10_0_0_0_def addr_10_255_255_255_def)
  from IPPrefix_ctor_normalises [of addr_10_0_0_0 addr_10_255_255_255 104 8
      prefix_10_8 prefix_10_8, OF wf _ _ _ top wfp wfp] fam c wf top ne
  show ?thesis
    by simp
qed

text \<open>
  Claim C3. Every prefix value is meant to hold its address masked to its length, which
  is what makes equal blocks compare equal; the header says so of the field \<^verbatim>\<open>prefix\<close>.
  The constructor keeps this, as shown above: 10.0.0.0/8 is built with the length field
  104, and masking its address to 104 bits returns it. The assignment operator breaks it.
  After assigning that prefix, the target holds the address ::ffff:10.0.0.0 with the
  length field 8: bit 80 of the stored address, beyond the stored length, is set, and
  masking the stored address to the stored length gives the all-zero address, not the
  stored address.
\<close>

theorem IPPrefix_assign_not_masked:
  "IPPrefix_ctor addr_10_0_0_0 8 = Inr prefix_10_8
   \<and> Mask (Prefix prefix_10_8) (int (unat (LengthIPv6 prefix_10_8))) = Inr (Prefix prefix_10_8)
   \<and> Prefix (IPPrefix_assign prefix_default prefix_10_8) = addr_10_0_0_0
   \<and> LengthIPv6 (IPPrefix_assign prefix_default prefix_10_8) = 8
   \<and> bit_at (in6 (Prefix (IPPrefix_assign prefix_default prefix_10_8))) 80
   \<and> Mask (Prefix (IPPrefix_assign prefix_default prefix_10_8))
         (int (unat (LengthIPv6 (IPPrefix_assign prefix_default prefix_10_8))))
       = Inr addr_unspecified
   \<and> Mask (Prefix (IPPrefix_assign prefix_default prefix_10_8))
         (int (unat (LengthIPv6 (IPPrefix_assign prefix_default prefix_10_8))))
       \<noteq> Inr (Prefix (IPPrefix_assign prefix_default prefix_10_8))"
  by (simp add: IPPrefix_ctor_def Mask_def IPPrefix_assign_def IPAddr_assign_def
      Prefix_def Length_def LengthIPv6_def prefix_10_8_def prefix_default_def
      addr_unspecified_def addr_10_0_0_0_def family_def v4_mapped_prefix_def bit_at_def)

text \<open>
  Claim C6, as the code has it. A 4-byte IPv4 input is stored after the mapped prefix, and
  the result is of the IPv4 family; a 16-byte IPv6 input is stored in place. With
  \<^verbatim>\<open>Network\<close> the bytes are stored as they are. With \<^verbatim>\<open>Host\<close> the conversion \<^verbatim>\<open>htonl\<close> is
  applied to the single word, or to each of the four words on its own: on a little-endian
  machine the four bytes of each word are reversed, word by word and not as one unit of
  16 bytes; on a big-endian machine the bytes are left as they are.
\<close>

theorem IPAddr_raw_bytes:
  assumes "length b4 = 4"
    and "length w0 = 4" and "length w1 = 4" and "length w2 = 4" and "length w3 = 4"
  shows "IPAddr_raw e IPv4 b4 Network = \<lparr>in6 = v4_mapped_prefix @ b4\<rparr>
    \<and> IPAddr_raw e IPv4 b4 Host =
        \<lparr>in6 = v4_mapped_prefix @ (if e = LittleEndian then rev b4 else b4)\<rparr>
    \<and> family (IPAddr_raw e IPv4 b4 order) = IPv4
    \<and> IPAddr_raw e IPv6 (w0 @ w1 @ w2 @ w3) Network = \<lparr>in6 = w0 @ w1 @ w2 @ w3\<rparr>
    \<and> IPAddr_raw e IPv6 (w0 @ w1 @ w2 @ w3) Host =
        \<lparr>in6 = (if e = LittleEndian then rev w0 @ rev w1 @ rev w2 @ rev w3
                else w0 @ w1 @ w2 @ w3)\<rparr>"
proof -
  have v4h: "IPAddr_raw e IPv4 b4 Host =
      \<lparr>in6 = v4_mapped_prefix @ (if e = LittleEndian then rev b4 else b4)\<rparr>"
    using htonl_at_append [of v4_mapped_prefix 12 b4 e "[]"] assms(1)
    by (simp add: IPAddr_raw_def length_v4_mapped_prefix htonl_word)
  have v4n: "IPAddr_raw e IPv4 b4 Network = \<lparr>in6 = v4_mapped_prefix @ b4\<rparr>"
    using assms(1) by (simp add: IPAddr_raw_def)
  have fam: "family (IPAddr_raw e IPv4 b4 order) = IPv4"
  proof (cases order)
    case Host
    then show ?thesis
      by (simp add: v4h family_def memcmp_zero_iff length_v4_mapped_prefix)
  next
    case Network
    then show ?thesis
      by (simp add: v4n family_def memcmp_zero_iff length_v4_mapped_prefix)
  qed
  have v6n: "IPAddr_raw e IPv6 (w0 @ w1 @ w2 @ w3) Network = \<lparr>in6 = w0 @ w1 @ w2 @ w3\<rparr>"
    using assms by (simp add: IPAddr_raw_def)
  have "take 16 (w0 @ w1 @ w2 @ w3) = w0 @ w1 @ w2 @ w3"
    using assms by simp
  then have v6h: "IPAddr_raw e IPv6 (w0 @ w1 @ w2 @ w3) Host =
        \<lparr>in6 = (if e = LittleEndian then rev w0 @ rev w1 @ rev w2 @ rev w3
                else w0 @ w1 @ w2 @ w3)\<rparr>"
    using htonl_all_words [OF assms(2-5), of e] assms(2-5)
    by (simp add: IPAddr_raw_def htonl_word)
  from v4n v4h fam v6n v6h show ?thesis by blast
qed

theorem IPAddr_raw_bytes_witness:
  "IPAddr_raw LittleEndian IPv4 [1, 2, 3, 4] Host
     = \<lparr>in6 = [0, 0, 0, 0, 0, 0, 0, 0, 0, 0, 0xff, 0xff, 4, 3, 2, 1]\<rparr>
   \<and> IPAddr_raw LittleEndian IPv4 [1, 2, 3, 4] Network
     = \<lparr>in6 = [0, 0, 0, 0, 0, 0, 0, 0, 0, 0, 0xff, 0xff, 1, 2, 3, 4]\<rparr>
   \<and> IPAddr_raw LittleEndian IPv6
        ([0x20, 1, 0xd, 0xb8] @ [0, 0, 0, 1] @ [0, 0, 0, 2] @ [0, 0, 0, 3]) Host
     = \<lparr>in6 = [0xb8, 0xd, 1, 0x20, 1, 0, 0, 0, 2, 0, 0, 0, 3, 0, 0, 0]\<rparr>
   \<and> IPAddr_raw LittleEndian IPv6
        ([0x20, 1, 0xd, 0xb8] @ [0, 0, 0, 1] @ [0, 0, 0, 2] @ [0, 0, 0, 3]) Host
     \<noteq> \<lparr>in6 = rev ([0x20, 1, 0xd, 0xb8] @ [0, 0, 0, 1] @ [0, 0, 0, 2] @ [0, 0, 0, 3])\<rparr>"
  using IPAddr_raw_bytes [of "[1, 2, 3, 4]" "[0x20, 1, 0xd, 0xb8]" "[0, 0, 0, 1]"
      "[0, 0, 0, 2]" "[0, 0, 0, 3]" LittleEndian Host]
  by (simp add: v4_mapped_prefix_def)

text \<open>
  The statement of claim C6 that the word is byte-swapped whenever the flag is \<^verbatim>\<open>Host\<close>
  fails on a big-endian machine, where \<^verbatim>\<open>htonl\<close> returns its argument: the bytes
  1, 2, 3, 4 are stored in that order.
\<close>

theorem IPAddr_raw_Host_BigEndian:
  "IPAddr_raw BigEndian IPv4 [1, 2, 3, 4] Host
     = \<lparr>in6 = [0, 0, 0, 0, 0, 0, 0, 0, 0, 0, 0xff, 0xff, 1, 2, 3, 4]\<rparr>
   \<and> IPAddr_raw BigEndian IPv4 [1, 2, 3, 4] Host
     \<noteq> \<lparr>in6 = [0, 0, 0, 0, 0, 0, 0, 0, 0, 0, 0xff, 0xff, 4, 3, 2, 1]\<rparr>"
  by code_simp

text \<open>
  Claim C5. For every address, parsing the string that \<open>AsString\<close> produces succeeds and
  returns the address: for the dotted-decimal text of an IPv4-family address and for the
  compressed colon-hex text of an IPv6-family address.
\<close>

theorem parse_AsString:
  assumes "wf_IPAddr a"
  shows "parse (AsString a) = Inr a"
proof (cases "family a")
  case IPv4
  from assms have len: "length (in6 a) = 16" by (simp add: wf_IPAddr_def)
  from IPv4 assms have pre: "take 12 (in6 a) = v4_mapped_prefix"
    by (simp add: family_IPv4_iff)
  have l4: "length (drop 12 (in6 a)) = 4" using len by simp
  have "map of_nat (map unat (drop 12 (in6 a))) = drop 12 (in6 a)"
    by (simp add: comp_def)
  with pre have bytes: "v4_mapped_prefix @ map of_nat (map unat (drop 12 (in6 a))) = in6 a"
    using append_take_drop_id [of 12 "in6 a"] by simp
  have "parse (AsString a) =
      Inr \<lparr>in6 = v4_mapped_prefix @ map of_nat (map unat (drop 12 (in6 a)))\<rparr>"
    using IPv4 by (simp add: parse_def AsString_def no_colon_in_dotted parse_v4_dotted [OF l4])
  also have "\<dots> = Inr a"
    by (simp only: bytes IPAddr_eta)
  finally show ?thesis .
next
  case IPv6
  from assms have len: "length (in6 a) = 16" by (simp add: wf_IPAddr_def)
  let ?gs = "groups_of (in6 a)"
  have l8: "length ?gs = 8" using len by (simp add: length_groups_of)
  have bound: "\<forall>g \<in> set ?gs. g \<le> 65535" by (simp add: groups_of_bound)
  have bytes: "bytes_of_groups ?gs = in6 a" using len by (simp add: bytes_of_groups_of)
  have "parse (AsString a) = Inr \<lparr>in6 = bytes_of_groups ?gs\<rparr>"
    using IPv6 by (simp add: parse_def AsString_def colon_in_format_groups [OF l8]
        parse_v6_format_groups [OF l8 bound])
  also have "\<dots> = Inr a"
    by (simp only: bytes IPAddr_eta)
  finally show ?thesis .
qed

theorem parse_AsString_witness:
  "wf_IPAddr addr_192_168_1_2 \<and> AsString addr_192_168_1_2 = ''192.168.1.2''
   \<and> parse ''192.168.1.2'' = Inr addr_192_168_1_2
   \<and> wf_IPAddr addr_2001_db8 \<and> AsString addr_2001_db8 = ''2001:db8::1:0:0:1''
   \<and> parse ''2001:db8::1:0:0:1'' = Inr addr_2001_db8
   \<and> wf_IPAddr addr_loopback6 \<and> AsString addr_loopback6 = ''::1''
   \<and> parse ''::1'' = Inr addr_loopback6"
proof -
  have wf: "wf_IPAddr addr_192_168_1_2" "wf_IPAddr addr_2001_db8" "wf_IPAddr addr_loopback6"
    by (simp_all add: wf_IPAddr_def addr_192_168_1_2_def addr_2001_db8_def addr_loopback6_def)
  from parse_AsString [OF wf(1)] parse_AsString [OF wf(2)] parse_AsString [OF wf(3)]
  show ?thesis
    by (simp add: AsString_examples wf)
qed

end
